theory Spec2Isabelle
  imports Main
begin

section \<open>Tensors as the notebook uses them\<close>

text \<open>
  The notebook \<^verbatim>\<open>harvard_ViT.ipynb\<close> defines one function with a data-layout contract,
  \<^verbatim>\<open>img_to_patch\<close>. It only moves elements around, so a tensor is modelled by its
  logical content: the list of its axis lengths and its elements in row-major order.
  The element type stays polymorphic (the function never computes with an element).
\<close>

record 'a tensor =
  shape :: "nat list"
  data :: "'a list"

text \<open>The Python exceptions the function and the library calls it makes can raise.\<close>

datatype error = ValueError | RuntimeError | IndexError

subsection \<open>Sizes are 64-bit integers\<close>

text \<open>
  The library keeps axis lengths, element counts and strides in signed 64-bit integers.
  A Python integer outside that range cannot be passed to it, and its own products of
  lengths are taken in 64 bits: they wrap around.
\<close>

definition int64_max :: nat where
  "int64_max = 2 ^ 63 - 1"

definition fits_int64 :: "int \<Rightarrow> bool" where
  "fits_int64 n = (- (2 ^ 63) \<le> n \<and> n \<le> int int64_max)"

definition wrap64 :: "int \<Rightarrow> int" where
  "wrap64 n = (n + 2 ^ 63) mod 2 ^ 64 - 2 ^ 63"

definition numel :: "'a tensor \<Rightarrow> nat" where
  "numel t = prod_list (shape t)"

text \<open>
  The strides the library gives a tensor of a new shape: the stride of an axis is the
  product of the lengths of the axes after it, a length of zero counted as one, taken in
  64 bits.
\<close>

fun contiguous_strides :: "nat list \<Rightarrow> int list" where
  "contiguous_strides [] = []"
| "contiguous_strides (d # ds) =
     wrap64 (int (prod_list (map (max 1) ds))) # contiguous_strides ds"

text \<open>
  A tensor as the library allocates it: it has as many elements as its shape says, and
  its axis lengths, its element count and its strides are within 64 bits. For a tensor
  with at least one element each of these numbers is at most the element count, which
  the memory bounds.
\<close>

definition wf_tensor :: "'a tensor \<Rightarrow> bool" where
  "wf_tensor t =
     (length (data t) = prod_list (shape t)
      \<and> list_all (\<lambda>d. d \<le> int64_max) (shape t)
      \<and> prod_list (shape t) \<le> int64_max
      \<and> prod_list (map (max 1) (tl (shape t))) \<le> int64_max)"

subsection \<open>Row-major addressing\<close>

text \<open>
  The position of an element in the row-major list of a tensor's elements. These strides
  address the elements that exist, so no product of theirs leaves 64 bits.
\<close>

fun strides :: "nat list \<Rightarrow> nat list" where
  "strides [] = []"
| "strides (d # ds) = prod_list ds # strides ds"

fun unravel :: "nat list \<Rightarrow> nat \<Rightarrow> nat list" where
  "unravel [] n = []"
| "unravel (d # ds) n = (n div prod_list ds) # unravel ds (n mod prod_list ds)"

fun offset :: "nat list \<Rightarrow> nat list \<Rightarrow> nat" where
  "offset (i # is) (s # ss) = i * s + offset is ss"
| "offset _ _ = 0"

text \<open>
  \<^verbatim>\<open>t[i0, i1, ...]\<close> with one index per axis: an index out of range raises
  \<^verbatim>\<open>IndexError\<close>.
\<close>

definition elem :: "'a tensor \<Rightarrow> nat list \<Rightarrow> error + 'a" where
  "elem t idx =
     (if length idx = length (shape t) \<and> list_all2 (<) idx (shape t)
      then Inr (data t ! offset idx (strides (shape t)))
      else Inl IndexError)"

subsection \<open>The library calls\<close>

text \<open>
  \<^verbatim>\<open>torch.div(a, b, rounding_mode="trunc")\<close> on two Python integers: the library takes
  both as 64-bit integers (one that does not fit raises a \<^verbatim>\<open>RuntimeError\<close>) and
  returns the quotient rounded towards zero; an integer division by zero raises a
  \<^verbatim>\<open>RuntimeError\<close>. The function calls it with an axis length as \<open>a\<close>.
\<close>

definition torch_div_trunc :: "int \<Rightarrow> int \<Rightarrow> error + int" where
  "torch_div_trunc a b =
     (if \<not> fits_int64 a \<or> \<not> fits_int64 b then Inl RuntimeError
      else if b = 0 then Inl RuntimeError
      else Inr (sgn a * sgn b * (\<bar>a\<bar> div \<bar>b\<bar>)))"

text \<open>
  The size inference of \<^verbatim>\<open>reshape\<close>: every requested length must fit in 64 bits, a
  length below \<^verbatim>\<open>-1\<close> is invalid, at most one length may be \<^verbatim>\<open>-1\<close> (it is then
  inferred from the element count), and the product of the requested lengths, taken in 64
  bits, must be the element count of the tensor.
\<close>

definition infer_size :: "int list \<Rightarrow> nat \<Rightarrow> error + nat list" where
  "infer_size dims n =
     (if list_ex (\<lambda>d. \<not> fits_int64 d) dims then Inl RuntimeError
      else if list_ex (\<lambda>d. d < - 1) dims then Inl RuntimeError
      else if 1 < count_list dims (- 1) then Inl RuntimeError
      else
        let newsize = wrap64 (prod_list (filter (\<lambda>d. 0 \<le> d) dims)) in
        if count_list dims (- 1) = 1 then
          (if 0 < newsize \<and> int n mod newsize = 0
           then Inr (map (\<lambda>d. if d = - 1 then n div nat newsize else nat d) dims)
           else Inl RuntimeError)
        else if int n = newsize then Inr (map nat dims)
        else Inl RuntimeError)"

text \<open>
  \<^verbatim>\<open>reshape\<close> keeps the elements in their row-major order under the new shape. The
  strides of the result are computed in 64 bits; a stride that comes out negative raises
  a \<^verbatim>\<open>RuntimeError\<close> ("Stride calculation overflowed").
\<close>

definition reshape :: "'a tensor \<Rightarrow> int list \<Rightarrow> error + 'a tensor" where
  "reshape t dims =
     (case infer_size dims (numel t) of
        Inl e \<Rightarrow> Inl e
      | Inr s \<Rightarrow>
          if list_ex (\<lambda>v. v < 0) (contiguous_strides s) then Inl RuntimeError
          else Inr \<lparr>shape = s, data = data t\<rparr>)"

text \<open>
  \<^verbatim>\<open>permute\<close> reorders the axes: axis \<open>j\<close> of the result is axis \<open>dims ! j\<close> of the
  argument, with that axis's stride. The result's elements are listed in the row-major
  order of the new shape.
\<close>

definition permute :: "'a tensor \<Rightarrow> nat list \<Rightarrow> error + 'a tensor" where
  "permute t dims =
     (if length dims \<noteq> length (shape t) then Inl RuntimeError
      else if \<not> list_all (\<lambda>d. d < length (shape t)) dims then Inl IndexError
      else if \<not> distinct dims then Inl RuntimeError
      else
        let s' = map (\<lambda>d. shape t ! d) dims;
            st' = map (\<lambda>d. strides (shape t) ! d) dims
        in Inr \<lparr>shape = s',
                data = map (\<lambda>n. data t ! offset (unravel s' n) st') [0..<prod_list s']\<rparr>)"

text \<open>
  \<^verbatim>\<open>flatten(start_dim, end_dim)\<close> merges the axes \<open>start_dim..end_dim\<close> into one, keeping
  the row-major order of the elements: the library multiplies their lengths in 64 bits
  and reshapes to the shape with that product in their place. With equal bounds it
  returns the tensor as it is. The notebook calls it on tensors of five and six axes with
  constant bounds.
\<close>

definition flatten :: "'a tensor \<Rightarrow> nat \<Rightarrow> nat \<Rightarrow> error + 'a tensor" where
  "flatten t start_dim end_dim =
     (if \<not> (start_dim < length (shape t) \<and> end_dim < length (shape t)) then Inl IndexError
      else if end_dim < start_dim then Inl RuntimeError
      else if start_dim = end_dim then Inr t
      else reshape t
             (map int (take start_dim (shape t))
              @ [wrap64 (int (prod_list (take (end_dim + 1 - start_dim) (drop start_dim (shape t)))))]
              @ map int (drop (end_dim + 1) (shape t))))"

section \<open>The patch tokenizer\<close>

text \<open>
  \<^verbatim>\<open>
  def img_to_patch(x, patch_size, flatten_channels=True):
      B, C, W, H = x.shape
      x = x.reshape(B, C, torch.div(H, patch_size, rounding_mode="trunc"), patch_size,
                    torch.div(W, patch_size, rounding_mode="trunc"), patch_size)
      x = x.permute(0, 2, 4, 1, 3, 5)  # B, H', W', C, p_H, p_W
      x = x.flatten(1, 2)  # B, H'*W', C, p_H, p_W
      if flatten_channels:
          x = x.flatten(2, 4)  # B, H'*W', C*p_H*p_W
      return x
  \<close>
  The unpacking of \<^verbatim>\<open>x.shape\<close> raises \<^verbatim>\<open>ValueError\<close> unless there are exactly four
  axes. The source names the third axis \<open>W\<close> and the fourth \<open>H\<close>; the model keeps
  these names.
\<close>

definition img_to_patch :: "'a tensor \<Rightarrow> int \<Rightarrow> bool \<Rightarrow> error + 'a tensor" where
  "img_to_patch x patch_size flatten_channels =
     (case shape x of
        [B, C, W, H] \<Rightarrow>
          (case torch_div_trunc (int H) patch_size of
             Inl e \<Rightarrow> Inl e
           | Inr Hq \<Rightarrow>
          (case torch_div_trunc (int W) patch_size of
             Inl e \<Rightarrow> Inl e
           | Inr Wq \<Rightarrow>
          (case reshape x [int B, int C, Hq, patch_size, Wq, patch_size] of
             Inl e \<Rightarrow> Inl e
           | Inr x1 \<Rightarrow>
          (case permute x1 [0, 2, 4, 1, 3, 5] of
             Inl e \<Rightarrow> Inl e
           | Inr x2 \<Rightarrow>
          (case flatten x2 1 2 of
             Inl e \<Rightarrow> Inl e
           | Inr x3 \<Rightarrow>
          if flatten_channels then flatten x3 2 4 else Inr x3)))))
      | _ \<Rightarrow> Inl ValueError)"

text \<open>
  The inputs on which no length, element count or stride of the call leaves 64 bits: the
  batch length and the element count of the input fit, and so does the largest stride
  the call computes, \<open>C * max W P * max H P\<close> with a channel count of zero counted as
  one. When the image axes are at least \<open>P\<close> long this is the first stride of the input
  itself; an input with at least one element whose axes \<open>P\<close> divides is always within
  these bounds.
\<close>

definition within_int64 :: "'a tensor \<Rightarrow> nat \<Rightarrow> bool" where
  "within_int64 x P =
     (case shape x of
        [B, C, W, H] \<Rightarrow>
          B \<le> int64_max \<and> B * C * W * H \<le> int64_max
          \<and> max C 1 * max W P * max H P \<le> int64_max
      | _ \<Rightarrow> True)"

text \<open>
  What the reshape and the permutation of \<^verbatim>\<open>img_to_patch\<close> do to the element list, for
  the six-axis shape \<open>[B, C, Hq, P, Wq, P]\<close>: entry \<open>n\<close> of the result is read at the
  row-major index of \<open>n\<close> in \<open>[B, Hq, Wq, C, P, P]\<close>, weighted by the strides of the
  axes as they were before the permutation.
\<close>

definition gather :: "'a list \<Rightarrow> nat \<Rightarrow> nat \<Rightarrow> nat \<Rightarrow> nat \<Rightarrow> nat \<Rightarrow> 'a list" where
  "gather xs B C Hq Wq P =
     map (\<lambda>n. xs ! offset (unravel [B, Hq, Wq, C, P, P] n)
                  [C * (Hq * (P * (Wq * P))), P * (Wq * P), P, Hq * (P * (Wq * P)), Wq * P, 1])
         [0..<B * (Hq * (Wq * (C * (P * P))))]"

section \<open>The specification's words\<close>

text \<open>
  The specification describes the feature form as the grid form "with its last three axes
  merged into one axis, element order preserved". This is that description, written
  without the library's \<^verbatim>\<open>flatten\<close>, to compare the code with.
\<close>

definition spec_merge_last_three :: "'a tensor \<Rightarrow> 'a tensor" where
  "spec_merge_last_three t =
     \<lparr>shape = take (length (shape t) - 3) (shape t)
               @ [prod_list (drop (length (shape t) - 3) (shape t))],
      data = data t\<rparr>"

text \<open>
  The specification's patch grid: the patches of an image of height \<open>H\<close> and width \<open>W\<close>
  are its \<open>P\<close> by \<open>P\<close> blocks, numbered row by row over the \<open>(H/P, W/P)\<close> grid (outer
  loop over height groups, inner loop over width groups). Entry \<open>(c, i, j)\<close> of patch
  \<open>k\<close> of image \<open>b\<close> is then the pixel of channel \<open>c\<close> at row
  \<open>(k div (W/P)) * P + i\<close> and column \<open>(k mod (W/P)) * P + j\<close>.
\<close>

definition spec_patch_entry ::
    "'a tensor \<Rightarrow> nat \<Rightarrow> nat \<Rightarrow> nat \<Rightarrow> nat \<Rightarrow> nat \<Rightarrow> nat \<Rightarrow> error + 'a" where
  "spec_patch_entry x P b k c i j =
     (case shape x of
        [B, C, H, W] \<Rightarrow>
          elem x [b, c, (k div (W div P)) * P + i, (k mod (W div P)) * P + j]
      | _ \<Rightarrow> Inl ValueError)"

text \<open>
  The specification's reassembly, "inverting the partition/merge": split the patch axis
  of a grid-form tensor back into the \<open>(H/P, W/P)\<close> grid, move the axes back to
  \<open>(B, C, H/P, P, W/P, P)\<close>, and merge the height and the width axes again.
\<close>

definition spec_patches_to_img :: "'a tensor \<Rightarrow> nat \<Rightarrow> nat \<Rightarrow> error + 'a tensor" where
  "spec_patches_to_img y H W =
     (case shape y of
        [B, N, C, P, P'] \<Rightarrow>
          (case reshape y [int B, int (H div P), int (W div P), int C, int P, int P'] of
             Inl e \<Rightarrow> Inl e
           | Inr y1 \<Rightarrow>
          (case permute y1 [0, 3, 1, 4, 2, 5] of
             Inl e \<Rightarrow> Inl e
           | Inr y2 \<Rightarrow> reshape y2 [int B, int C, int H, int W]))
      | _ \<Rightarrow> Inl ValueError)"

section \<open>The call as Python runs it\<close>

text \<open>
  In Python a tensor is an object and a variable holds a reference to it. The state is
  the list of the tensor objects that exist; a reference is a position in it. Each of
  \<^verbatim>\<open>reshape\<close>, \<^verbatim>\<open>permute\<close> and \<^verbatim>\<open>flatten\<close> returns a new tensor object and writes
  to none (the function uses no in-place operation and no indexed assignment), and
  \<^verbatim>\<open>x = x.reshape(...)\<close> rebinds the function's local name \<open>x\<close> to the new object.
  An exception leaves the function at once with the error.
\<close>

type_synonym 'a objects = "'a tensor list"

definition method_call ::
    "'a objects \<Rightarrow> nat \<Rightarrow> ('a tensor \<Rightarrow> error + 'a tensor) \<Rightarrow> error + (nat \<times> 'a objects)" where
  "method_call h r m =
     (case m (h ! r) of
        Inl e \<Rightarrow> Inl e
      | Inr t \<Rightarrow> Inr (length h, h @ [t]))"

definition img_to_patch_call ::
    "'a objects \<Rightarrow> nat \<Rightarrow> int \<Rightarrow> bool \<Rightarrow> error + (nat \<times> 'a objects)" where
  "img_to_patch_call h x patch_size flatten_channels =
     (case shape (h ! x) of
        [B, C, W, H] \<Rightarrow>
          (case torch_div_trunc (int H) patch_size of
             Inl e \<Rightarrow> Inl e
           | Inr Hq \<Rightarrow>
          (case torch_div_trunc (int W) patch_size of
             Inl e \<Rightarrow> Inl e
           | Inr Wq \<Rightarrow>
          (case method_call h x (\<lambda>t. reshape t [int B, int C, Hq, patch_size, Wq, patch_size]) of
             Inl e \<Rightarrow> Inl e
           | Inr (x1, h1) \<Rightarrow>
          (case method_call h1 x1 (\<lambda>t. permute t [0, 2, 4, 1, 3, 5]) of
             Inl e \<Rightarrow> Inl e
           | Inr (x2, h2) \<Rightarrow>
          (case method_call h2 x2 (\<lambda>t. flatten t 1 2) of
             Inl e \<Rightarrow> Inl e
           | Inr (x3, h3) \<Rightarrow>
          if flatten_channels then method_call h3 x3 (\<lambda>t. flatten t 2 4) else Inr (x3, h3))))))
      | _ \<Rightarrow> Inl ValueError)"

section \<open>The caller\<close>

text \<open>
  The parameter list is \<^verbatim>\<open>(x, patch_size, flatten_channels=True)\<close>: a call that leaves
  the third argument out gets \<open>True\<close>.
\<close>

definition img_to_patch_args :: "'a tensor \<Rightarrow> int \<Rightarrow> bool option \<Rightarrow> error + 'a tensor" where
  "img_to_patch_args x patch_size flatten_channels =
     img_to_patch x patch_size (case flatten_channels of None \<Rightarrow> True | Some f \<Rightarrow> f)"

text \<open>
  \<^verbatim>\<open>VisionTransformer\<close> keeps \<^verbatim>\<open>patch_size\<close> and builds its input layer as
  \<^verbatim>\<open>nn.Linear(num_channels * (patch_size**2), embed_dim)\<close>. The layer allocates a
  weight with that many columns, so a width that is negative or does not fit in 64 bits
  raises a \<^verbatim>\<open>RuntimeError\<close> and no transformer is built. Its \<^verbatim>\<open>forward\<close> begins
  \<^verbatim>\<open>
      x = img_to_patch(x, self.patch_size)
      B, T, _ = x.shape
      x = self.input_layer(x)
  \<close>
  The model follows \<^verbatim>\<open>forward\<close> up to the point where the linear layer takes the
  tensor: the unpacking needs three axes, and the layer needs the last axis to have its
  input width (it raises a \<^verbatim>\<open>RuntimeError\<close> otherwise). The arithmetic of the layer and
  of what follows is on floating-point numbers and is not modelled.
\<close>

record vision_transformer =
  patch_size :: int
  in_features :: int

definition VisionTransformer :: "int \<Rightarrow> int \<Rightarrow> error + vision_transformer" where
  "VisionTransformer num_channels patch_size' =
     (let w = num_channels * patch_size' ^ 2
      in if 0 \<le> w \<and> w \<le> int int64_max
         then Inr \<lparr>patch_size = patch_size', in_features = w\<rparr>
         else Inl RuntimeError)"

definition forward_input :: "vision_transformer \<Rightarrow> 'a tensor \<Rightarrow> error + 'a tensor" where
  "forward_input self x =
     (case img_to_patch_args x (patch_size self) None of
        Inl e \<Rightarrow> Inl e
      | Inr x1 \<Rightarrow>
          (case shape x1 of
             [B, T, F] \<Rightarrow>
               if int F = in_features self then Inr x1 else Inl RuntimeError
           | _ \<Rightarrow> Inl ValueError))"

section \<open>The library calls on the shapes the tokenizer passes\<close>

lemma wrap64_id:
  "n \<le> int64_max \<Longrightarrow> wrap64 (int n) = int n"
  by (simp add: wrap64_def int64_max_def)

lemma fits_int64_nat:
  "n \<le> int64_max \<Longrightarrow> fits_int64 (int n)"
  by (simp add: fits_int64_def)

lemma torch_div_trunc_nat:
  "0 < P \<Longrightarrow> P \<le> int64_max \<Longrightarrow> H \<le> int64_max \<Longrightarrow>
   torch_div_trunc (int H) (int P) = Inr (int (H div P))"
  by (simp add: torch_div_trunc_def fits_int64_nat sgn_if zdiv_int)

lemma prod_list_int:
  "prod_list (map int s) = int (prod_list s)"
  by (induction s) simp_all

lemma infer_size_nat:
  assumes "list_all (\<lambda>d. d \<le> int64_max) s" and "prod_list s \<le> int64_max"
  shows "infer_size (map int s) n = (if n = prod_list s then Inr s else Inl RuntimeError)"
proof -
  have f: "\<not> list_ex (\<lambda>d. \<not> fits_int64 d) (map int s)"
    using assms(1) by (induction s) (simp_all add: fits_int64_nat)
  have a: "\<not> list_ex (\<lambda>d. d < - 1) (map int s)"
    by (simp add: list_ex_iff)
  have b: "count_list (map int s) (- 1) = 0"
    by (induction s) auto
  have c: "filter (\<lambda>d. 0 \<le> d) (map int s) = map int s"
    by (induction s) auto
  have d: "map nat (map int s) = s"
    by (induction s) auto
  have w: "wrap64 (prod_list (map int s)) = int (prod_list s)"
    using assms(2) by (simp add: prod_list_int wrap64_id)
  show ?thesis
    unfolding infer_size_def using f a b c d w by (simp add: Let_def)
qed

lemma prod_max_mono:
  "prod_list (map (max 1) ds) \<le> prod_list (map (max (1::nat)) (d # ds))"
  by simp

lemma contiguous_strides_nonneg:
  "prod_list (map (max 1) ds) \<le> int64_max \<Longrightarrow>
   \<not> list_ex (\<lambda>v. v < 0) (contiguous_strides (d # ds))"
proof (induction ds arbitrary: d)
  case Nil
  then show ?case by (simp add: wrap64_def)
next
  case (Cons e es)
  have "prod_list (map (max 1) es) \<le> prod_list (map (max 1) (e # es))"
    by (rule prod_max_mono)
  then have "prod_list (map (max 1) es) \<le> int64_max"
    using Cons.prems by (rule order_trans)
  then have rest: "\<not> list_ex (\<lambda>v. v < 0) (contiguous_strides (e # es))"
    by (rule Cons.IH)
  have "wrap64 (int (prod_list (map (max 1) (e # es)))) = int (prod_list (map (max 1) (e # es)))"
    using Cons.prems by (rule wrap64_id)
  then have w0: "\<not> wrap64 (int (prod_list (map (max 1) (e # es)))) < 0"
    by (simp only: of_nat_less_0_iff not_False_eq_True)
  have h: "contiguous_strides (d # e # es) =
      wrap64 (int (prod_list (map (max 1) (e # es)))) # contiguous_strides (e # es)"
    by (simp only: contiguous_strides.simps)
  show ?case
    unfolding h list_ex_Cons_iff using w0 rest by blast
qed

lemma reshape_nat:
  assumes "list_all (\<lambda>d. d \<le> int64_max) s" and "prod_list s \<le> int64_max"
    and "prod_list (map (max 1) (tl s)) \<le> int64_max"
  shows "reshape t (map int s) =
    (if numel t = prod_list s then Inr \<lparr>shape = s, data = data t\<rparr> else Inl RuntimeError)"
proof (cases s)
  case Nil
  then show ?thesis
    using infer_size_nat [OF assms(1) assms(2), of "numel t"] by (simp add: reshape_def)
next
  case (Cons d ds)
  then have "\<not> list_ex (\<lambda>v. v < 0) (contiguous_strides s)"
    using assms(3) contiguous_strides_nonneg [of ds d] by simp
  then show ?thesis
    using infer_size_nat [OF assms(1) assms(2), of "numel t"] by (simp add: reshape_def)
qed

lemma flatten_1_2:
  assumes s: "shape t = [a, b, c, d, e, f]"
    and fit: "list_all (\<lambda>d. d \<le> int64_max) [a, b * c, d, e, f]"
      "prod_list [a, b * c, d, e, f] \<le> int64_max"
      "prod_list (map (max 1) (tl [a, b * c, d, e, f])) \<le> int64_max"
  shows "flatten t 1 2 = Inr \<lparr>shape = [a, b * c, d, e, f], data = data t\<rparr>"
proof -
  have "b * c \<le> int64_max" using fit(1) by simp
  then have "wrap64 (int (b * c)) = int (b * c)" by (rule wrap64_id)
  then have w: "wrap64 (int b * int c) = int b * int c" by simp
  have "flatten t 1 2 = reshape t (map int [a, b * c, d, e, f])"
    by (simp add: flatten_def s w)
  also have "\<dots> = Inr \<lparr>shape = [a, b * c, d, e, f], data = data t\<rparr>"
    unfolding reshape_nat [OF fit] by (simp add: numel_def s mult.assoc)
  finally show ?thesis .
qed

lemma flatten_2_4:
  assumes s: "shape t = [a, b, c, d, e]"
    and fit: "list_all (\<lambda>d. d \<le> int64_max) [a, b, c * (d * e)]"
      "prod_list [a, b, c * (d * e)] \<le> int64_max"
      "prod_list (map (max 1) (tl [a, b, c * (d * e)])) \<le> int64_max"
  shows "flatten t 2 4 = Inr \<lparr>shape = [a, b, c * (d * e)], data = data t\<rparr>"
proof -
  have "c * (d * e) \<le> int64_max" using fit(1) by simp
  then have "wrap64 (int (c * (d * e))) = int (c * (d * e))" by (rule wrap64_id)
  then have w: "wrap64 (int c * (int d * int e)) = int c * (int d * int e)" by simp
  have "flatten t 2 4 = reshape t (map int [a, b, c * (d * e)])"
    by (simp add: flatten_def s w)
  also have "\<dots> = Inr \<lparr>shape = [a, b, c * (d * e)], data = data t\<rparr>"
    unfolding reshape_nat [OF fit] by (simp add: numel_def s mult.assoc)
  finally show ?thesis .
qed

lemma permute_gather:
  "shape t = [B, C, Hq, P, Wq, P] \<Longrightarrow>
   permute t [0, 2, 4, 1, 3, 5] =
     Inr \<lparr>shape = [B, Hq, Wq, C, P, P], data = gather (data t) B C Hq Wq P\<rparr>"
  by (simp add: permute_def Let_def gather_def)

text \<open>The bounds that keep every length, count and stride of the call within 64 bits.\<close>

lemma patch_bounds:
  fixes B C W H P :: nat
  assumes P: "0 < P"
    and fit: "B * C * W * H \<le> M" "max C 1 * max W P * max H P \<le> M"
  shows "P \<le> M" "C \<le> M" "W \<le> M" "H \<le> M" "H div P \<le> M" "W div P \<le> M"
    and "B * C * (H div P) * P * (W div P) * P \<le> M"
    and "max 1 C * (max 1 (H div P) * (P * (max 1 (W div P) * P))) \<le> M"
    and "H div P * (W div P) \<le> M" "C * (P * P) \<le> M"
    and "max 1 (H div P * (W div P)) * (max 1 C * (P * P)) \<le> M"
    and "max 1 (H div P * (W div P)) * max 1 (C * (P * P)) \<le> M"
proof -
  define a u v hq wq where "a = max C 1" and "u = max W P" and "v = max H P"
    and "hq = max 1 (H div P)" and "wq = max 1 (W div P)"
  have pos: "1 \<le> a" "1 \<le> u" "1 \<le> v" "1 \<le> hq" "1 \<le> wq" "1 \<le> P"
    using P by (simp_all add: a_def u_def v_def hq_def wq_def)
  have auv: "a * u * v \<le> M" using fit(2) by (simp add: a_def u_def v_def)
  have hv: "hq * P \<le> v"
  proof (cases "H div P = 0")
    case True
    then show ?thesis by (simp add: hq_def v_def)
  next
    case False
    then have "hq * P = H div P * P" by (simp add: hq_def max_def)
    also have "\<dots> \<le> H" by simp
    also have "\<dots> \<le> v" by (simp add: v_def)
    finally show ?thesis .
  qed
  have wu: "wq * P \<le> u"
  proof (cases "W div P = 0")
    case True
    then show ?thesis by (simp add: wq_def u_def)
  next
    case False
    then have "wq * P = W div P * P" by (simp add: wq_def max_def)
    also have "\<dots> \<le> W" by simp
    also have "\<dots> \<le> u" by (simp add: u_def)
    finally show ?thesis .
  qed
  have K: "a * (hq * P) * (wq * P) \<le> M"
  proof -
    have "a * (hq * P) * (wq * P) \<le> a * v * u"
      using hv wu by (intro mult_le_mono) simp_all
    also have "\<dots> = a * u * v" by (simp only: mult_ac)
    also note auv
    finally show ?thesis .
  qed
  have uM: "u \<le> M"
  proof -
    have "u = 1 * u * 1" by simp
    also have "\<dots> \<le> a * u * v" using pos by (intro mult_le_mono) simp_all
    also note auv
    finally show ?thesis .
  qed
  have vM: "v \<le> M"
  proof -
    have "v = 1 * 1 * v" by simp
    also have "\<dots> \<le> a * u * v" using pos by (intro mult_le_mono) simp_all
    also note auv
    finally show ?thesis .
  qed
  have aM: "a \<le> M"
  proof -
    have "a = a * 1 * 1" by simp
    also have "\<dots> \<le> a * u * v" using pos by (intro mult_le_mono) simp_all
    also note auv
    finally show ?thesis .
  qed
  show "P \<le> M" using uM by (simp add: u_def)
  show "C \<le> M" using aM by (simp add: a_def)
  show W: "W \<le> M" using uM by (simp add: u_def)
  show H: "H \<le> M" using vM by (simp add: v_def)
  have "H div P \<le> H" by simp
  then show "H div P \<le> M" using H by (rule order_trans)
  have "W div P \<le> W" by simp
  then show "W div P \<le> M" using W by (rule order_trans)
  have "B * C * (H div P) * P * (W div P) * P = B * C * ((W div P * P) * (H div P * P))"
    by (simp only: mult_ac)
  also have "\<dots> \<le> B * C * (W * H)"
    by (intro mult_le_mono) simp_all
  also have "\<dots> = B * C * W * H" by (simp only: mult_ac)
  also note fit(1)
  finally show "B * C * (H div P) * P * (W div P) * P \<le> M" .
  have "max 1 C * (max 1 (H div P) * (P * (max 1 (W div P) * P))) = a * (hq * P) * (wq * P)"
    unfolding a_def hq_def wq_def by (simp only: mult_ac max.commute)
  then show k1: "max 1 C * (max 1 (H div P) * (P * (max 1 (W div P) * P))) \<le> M"
    using K by (simp only:)
  have hw: "max 1 (H div P * (W div P)) \<le> hq * wq"
    using pos by (cases "H div P = 0"; cases "W div P = 0") (simp_all add: hq_def wq_def max_def)
  have K': "a * (hq * wq) * (P * P) \<le> M"
  proof -
    have "a * (hq * wq) * (P * P) = a * (hq * P) * (wq * P)" by (simp only: mult_ac)
    then show ?thesis using K by (simp only:)
  qed
  have "H div P * (W div P) = 1 * (H div P * (W div P)) * 1" by simp
  also have "\<dots> \<le> a * (hq * wq) * (P * P)"
    using pos by (intro mult_le_mono) (simp_all add: hq_def wq_def)
  also note K'
  finally show "H div P * (W div P) \<le> M" .
  have "C * (P * P) = C * 1 * (P * P)" by simp
  also have "\<dots> \<le> a * (hq * wq) * (P * P)"
    using pos by (intro mult_le_mono) (simp_all add: a_def)
  also note K'
  finally show cpp: "C * (P * P) \<le> M" .
  have "max 1 (H div P * (W div P)) * (max 1 C * (P * P)) = max 1 (H div P * (W div P)) * (a * (P * P))"
    unfolding a_def by (simp only: max.commute)
  also have "\<dots> \<le> (hq * wq) * (a * (P * P))"
    using hw by (intro mult_le_mono) simp_all
  also have "\<dots> = a * (hq * wq) * (P * P)" by (simp only: mult_ac)
  also note K'
  finally show k2: "max 1 (H div P * (W div P)) * (max 1 C * (P * P)) \<le> M" .
  have "max 1 (C * (P * P)) \<le> max 1 C * (P * P)"
    using pos by (cases "C = 0") (simp_all add: max_def)
  then have "max 1 (H div P * (W div P)) * max 1 (C * (P * P))
      \<le> max 1 (H div P * (W div P)) * (max 1 C * (P * P))"
    by (intro mult_le_mono) simp_all
  also note k2
  finally show "max 1 (H div P * (W div P)) * max 1 (C * (P * P)) \<le> M" .
qed

lemma within_int64_four:
  "shape x = [B, C, W, H] \<Longrightarrow>
   within_int64 x P \<longleftrightarrow>
     B \<le> int64_max \<and> B * C * W * H \<le> int64_max \<and> max C 1 * max W P * max H P \<le> int64_max"
  by (simp add: within_int64_def)

lemma img_to_patch_pos:
  assumes s: "shape x = [B, C, W, H]" and P: "0 < P" and fit: "within_int64 x P"
  shows "img_to_patch x (int P) f =
     (if B * C * W * H = B * C * (H div P) * P * (W div P) * P
      then Inr \<lparr>shape = (if f then [B, H div P * (W div P), C * (P * P)]
                           else [B, H div P * (W div P), C, P, P]),
                data = gather (data x) B C (H div P) (W div P) P\<rparr>
      else Inl RuntimeError)"
proof -
  have B: "B \<le> int64_max" and n: "B * C * W * H \<le> int64_max"
    and m: "max C 1 * max W P * max H P \<le> int64_max"
    using fit by (simp_all add: within_int64_four [OF s])
  note b = patch_bounds [OF P n m]
  have P1: "max (Suc 0) P = P" using P by (simp add: max_def)
  have d: "torch_div_trunc (int H) (int P) = Inr (int (H div P))"
    "torch_div_trunc (int W) (int P) = Inr (int (W div P))"
    using P b(1) b(3) b(4) by (simp_all add: torch_div_trunc_nat)
  have r: "reshape x [int B, int C, int (H div P), int P, int (W div P), int P] =
      (if numel x = prod_list [B, C, H div P, P, W div P, P]
       then Inr \<lparr>shape = [B, C, H div P, P, W div P, P], data = data x\<rparr> else Inl RuntimeError)"
  proof -
    have 1: "list_all (\<lambda>d. d \<le> int64_max) [B, C, H div P, P, W div P, P]"
      using B b by simp
    have 2: "prod_list [B, C, H div P, P, W div P, P] \<le> int64_max"
      using b(7) by (simp add: mult.assoc)
    have 3: "prod_list (map (max 1) (tl [B, C, H div P, P, W div P, P])) \<le> int64_max"
      using b(8) by (simp add: P1)
    show ?thesis
      using reshape_nat [OF 1 2 3, of x] by simp
  qed
  have nx: "numel x = B * C * W * H"
    by (simp add: numel_def s mult.assoc)
  show ?thesis
  proof (cases "B * C * W * H = B * C * (H div P) * P * (W div P) * P")
    case True
    then have r': "reshape x [int B, int C, int (H div P), int P, int (W div P), int P] =
        Inr \<lparr>shape = [B, C, H div P, P, W div P, P], data = data x\<rparr>"
      using r nx by (simp add: mult.assoc)
    define D where "D = gather (data x) B C (H div P) (W div P) P"
    have p: "permute \<lparr>shape = [B, C, H div P, P, W div P, P], data = data x\<rparr> [0, 2, 4, 1, 3, 5] =
        Inr \<lparr>shape = [B, H div P, W div P, C, P, P], data = D\<rparr>"
      using permute_gather [of "\<lparr>shape = [B, C, H div P, P, W div P, P], data = data x\<rparr>"
          B C "H div P" P "W div P"]
      by (simp add: D_def)
    have tot: "B * (H div P * (W div P) * (C * (P * P))) \<le> int64_max"
    proof -
      have "B * (H div P * (W div P) * (C * (P * P))) = B * C * (H div P) * P * (W div P) * P"
        by (simp only: mult_ac)
      then show ?thesis using b(7) by (simp only:)
    qed
    have f1: "flatten \<lparr>shape = [B, H div P, W div P, C, P, P], data = D\<rparr> 1 2 =
        Inr \<lparr>shape = [B, H div P * (W div P), C, P, P], data = D\<rparr>"
    proof -
      have 1: "list_all (\<lambda>d. d \<le> int64_max) [B, H div P * (W div P), C, P, P]"
        using B b by simp
      have 2: "prod_list [B, H div P * (W div P), C, P, P] \<le> int64_max"
        using tot by simp
      have 3: "prod_list (map (max 1) (tl [B, H div P * (W div P), C, P, P])) \<le> int64_max"
        using b(11) by (simp add: P1)
      show ?thesis
        using flatten_1_2 [OF _ 1 2 3, of "\<lparr>shape = [B, H div P, W div P, C, P, P], data = D\<rparr>"]
        by simp
    qed
    have f2: "flatten \<lparr>shape = [B, H div P * (W div P), C, P, P], data = D\<rparr> 2 4 =
        Inr \<lparr>shape = [B, H div P * (W div P), C * (P * P)], data = D\<rparr>"
    proof -
      have 1: "list_all (\<lambda>d. d \<le> int64_max) [B, H div P * (W div P), C * (P * P)]"
        using B b by simp
      have 2: "prod_list [B, H div P * (W div P), C * (P * P)] \<le> int64_max"
        using tot by simp
      have 3: "prod_list (map (max 1) (tl [B, H div P * (W div P), C * (P * P)])) \<le> int64_max"
        using b(12) by simp
      show ?thesis
        using flatten_2_4 [OF _ 1 2 3, of "\<lparr>shape = [B, H div P * (W div P), C, P, P], data = D\<rparr>"]
        by simp
    qed
    show ?thesis
      using True P
      by (simp add: img_to_patch_def s d r' p f1 f2 D_def [symmetric] del: One_nat_def)
  next
    case False
    then have r': "reshape x [int B, int C, int (H div P), int P, int (W div P), int P] =
        Inl RuntimeError"
      using r nx by (simp add: mult.assoc)
    show ?thesis
      using False P by (simp add: img_to_patch_def s d r')
  qed
qed

lemma mult_eq_le:
  fixes a b W H :: nat
  assumes "a \<le> W" "b \<le> H" "a * b = W * H" "0 < W" "0 < H"
  shows "a = W \<and> b = H"
proof -
  have 1: "a * b \<le> a * H" using assms(2) by (rule mult_le_mono2)
  have 2: "a * H \<le> W * H" using assms(1) by (rule mult_le_mono1)
  have "a * H = W * H" using 1 2 assms(3) by linarith
  then have a: "a = W" using assms(5) by simp
  then have "W * b = W * H" using assms(3) by simp
  then have "b = H" using assms(4) by simp
  with a show ?thesis by simp
qed

lemma count_eq_iff:
  fixes B C W H P :: nat
  assumes "0 < P"
  shows "B * C * W * H = B * C * (H div P) * P * (W div P) * P \<longleftrightarrow>
         (B * C * W * H = 0 \<or> (P dvd H \<and> P dvd W))"
proof (cases "B * C * W * H = 0")
  case True
  then consider "B = 0" | "C = 0" | "W = 0" | "H = 0" by auto
  then have "B * C * (H div P) * P * (W div P) * P = 0"
    by cases simp_all
  with True have "B * C * W * H = B * C * (H div P) * P * (W div P) * P"
    by (simp only:)
  with True show ?thesis by blast
next
  case False
  then have pos: "0 < B" "0 < C" "0 < W" "0 < H" by auto
  have hle: "H div P * P \<le> H" and wle: "W div P * P \<le> W" by simp_all
  show ?thesis
  proof
    assume eq: "B * C * W * H = B * C * (H div P) * P * (W div P) * P"
    then have "(B * C) * (W * H) = (B * C) * ((W div P * P) * (H div P * P))"
      by (simp only: mult_ac)
    then have e2: "(W div P * P) * (H div P * P) = W * H"
      using pos by simp
    have "W div P * P = W \<and> H div P * P = H"
      using wle hle e2 pos(3) pos(4) by (rule mult_eq_le)
    then have "P dvd H \<and> P dvd W"
      by (metis dvd_triv_right)
    then show "B * C * W * H = 0 \<or> (P dvd H \<and> P dvd W)" by simp
  next
    assume "B * C * W * H = 0 \<or> (P dvd H \<and> P dvd W)"
    with False have "P dvd H" "P dvd W" by auto
    then have "H div P * P = H" "W div P * P = W" by simp_all
    then have "B * C * (W div P * P) * (H div P * P) = B * C * W * H" by simp
    then show "B * C * W * H = B * C * (H div P) * P * (W div P) * P"
      by (simp only: mult_ac)
  qed
qed

section \<open>Output shapes\<close>

text \<open>
  Claim C1, within 64 bits. For an image batch of shape \<open>(B, C, H, W)\<close> and a positive
  patch size \<open>P\<close> dividing \<open>H\<close> and \<open>W\<close>, with the sizes of the call within 64 bits,
  \<^verbatim>\<open>img_to_patch\<close> returns a tensor of shape \<open>(B, (H/P) * (W/P), C, P, P)\<close> when
  \<^verbatim>\<open>flatten_channels\<close> is false and of shape \<open>(B, (H/P) * (W/P), C * P * P)\<close> when it
  is true. The instance at shape \<open>(2, 3, 32, 32)\<close> with \<open>P = 4\<close> gives
  \<open>(2, 64, 3, 4, 4)\<close> and \<open>(2, 64, 48)\<close>.
\<close>

theorem img_to_patch_shape:
  assumes "shape x = [B, C, H, W]" and "0 < P" and "P dvd H" and "P dvd W"
    and "within_int64 x P"
  shows "(\<exists>y. img_to_patch x (int P) False = Inr y
              \<and> shape y = [B, (H div P) * (W div P), C, P, P]) \<and>
         (\<exists>y. img_to_patch x (int P) True = Inr y
              \<and> shape y = [B, (H div P) * (W div P), C * P * P])"
proof -
  have ok: "B * C * H * W = B * C * (W div P) * P * (H div P) * P"
    using count_eq_iff [of P B C H W] assms by simp
  have c: "W div P * (H div P) = H div P * (W div P)"
    by (rule mult.commute)
  show ?thesis
    using img_to_patch_pos [OF assms(1) assms(2) assms(5), of False]
          img_to_patch_pos [OF assms(1) assms(2) assms(5), of True] ok
    by (simp add: c mult.assoc)
qed

theorem img_to_patch_shape_witness:
  "(\<exists>y. img_to_patch \<lparr>shape = [2, 3, 32, 32], data = replicate 6144 (0::int)\<rparr> 4 False = Inr y
        \<and> shape y = [2, 64, 3, 4, 4]) \<and>
   (\<exists>y. img_to_patch \<lparr>shape = [2, 3, 32, 32], data = replicate 6144 (0::int)\<rparr> 4 True = Inr y
        \<and> shape y = [2, 64, 48])"
  using img_to_patch_shape
    [of "\<lparr>shape = [2, 3, 32, 32], data = replicate 6144 (0::int)\<rparr>" 2 3 32 32 4]
  by (simp add: within_int64_def int64_max_def)

text \<open>
  Claim C1 as stated, for every positive \<open>P\<close> dividing \<open>H\<close> and \<open>W\<close>, does not hold:
  every \<open>P\<close> divides the axes of an image of height and width zero, and a patch size
  of \<open>2\<^sup>6\<^sup>3\<close> does not fit in 64 bits, so \<^verbatim>\<open>torch.div\<close> raises.
\<close>

theorem img_to_patch_huge_patch_raises:
  "(0::nat) < 2 ^ 63 \<and> (2 ^ 63 :: nat) dvd 0
   \<and> img_to_patch \<lparr>shape = [1, 1, 0, 0], data = ([] :: int list)\<rparr> (int (2 ^ 63)) True
       = Inl RuntimeError
   \<and> img_to_patch \<lparr>shape = [1, 1, 0, 0], data = ([] :: int list)\<rparr> (int (2 ^ 63)) False
       = Inl RuntimeError"
  by (simp add: img_to_patch_def torch_div_trunc_def fits_int64_def int64_max_def)

section \<open>Failures\<close>

lemma img_to_patch_axes:
  "length (shape x) \<noteq> 4 \<Longrightarrow> img_to_patch x P f = Inl ValueError"
  by (auto simp: img_to_patch_def split: list.splits)



lemma shape_four:
  assumes "length (shape x) = 4"
  shows "shape x = [shape x ! 0, shape x ! 1, shape x ! 2, shape x ! 3]"
proof -
  obtain a b c d where "shape x = [a, b, c, d]"
    using assms by (auto simp: length_Suc_conv numeral_eq_Suc)
  then show ?thesis by simp
qed





text \<open>
  Outside these bounds the strides decide: on the same empty batch a patch size whose
  square leaves 64 bits makes a stride of the reshaped tensor negative, and the call
  fails.
\<close>

lemma img_to_patch_stride_overflow_raises:
  "img_to_patch \<lparr>shape = [0, 3, 30, 30], data = ([] :: int list)\<rparr> 3037000500 f
     = Inl RuntimeError"
  by (simp add: img_to_patch_def torch_div_trunc_def fits_int64_def int64_max_def reshape_def
      infer_size_def numel_def wrap64_def Let_def)

section \<open>Element order\<close>

lemma length_gather:
  "length (gather xs B C Hq Wq P) = B * (Hq * (Wq * (C * (P * P))))"
  by (simp add: gather_def)

lemma radix_bound:
  fixes i j P Q :: nat
  assumes "i < P" "j < Q"
  shows "i * Q + j < P * Q"
proof -
  have "i * Q + j < i * Q + Q" using assms(2) by simp
  also have "\<dots> = Suc i * Q" by simp
  also have "\<dots> \<le> P * Q" using assms(1) by (intro mult_le_mono1) simp
  finally show ?thesis .
qed



lemma elem_grid:
  assumes "shape t = [B, N, C, P, P]" "b < B" "k < N" "c < C" "i < P" "j < P"
  shows "elem t [b, k, c, i, j] = Inr (data t ! ((((b * N + k) * C + c) * P + i) * P + j))"
proof -
  have e: "b * (N * (C * (P * P))) + (k * (C * (P * P)) + (c * (P * P) + (i * P + j)))
      = (((b * N + k) * C + c) * P + i) * P + j"
    by (simp add: algebra_simps)
  have "elem t [b, k, c, i, j]
      = Inr (data t ! (b * (N * (C * (P * P))) + (k * (C * (P * P)) + (c * (P * P) + (i * P + j)))))"
    using assms by (simp add: elem_def)
  then show ?thesis
    by (simp only: e)
qed

lemma elem_feature:
  assumes "shape t = [B, N, F]" "b < B" "k < N" "m < F"
  shows "elem t [b, k, m] = Inr (data t ! ((b * N + k) * F + m))"
proof -
  have e: "b * (N * F) + (k * F + m) = (b * N + k) * F + m"
    by (simp add: algebra_simps)
  have "elem t [b, k, m] = Inr (data t ! (b * (N * F) + (k * F + m)))"
    using assms by (simp add: elem_def)
  then show ?thesis
    by (simp only: e)
qed




text \<open>
  Claim C9, within 64 bits. For an input of shape \<open>(B, C, H, W)\<close> on which the function
  returns, with the sizes of the call within 64 bits, both forms are returned: the grid
  form has shape \<open>(B, (H/P) * (W/P), C, P, P)\<close> and holds as many elements as the input,
  and the feature form is the grid form with its last three axes \<open>(C, P, P)\<close> merged
  into one axis of length \<open>C * P * P\<close>, the elements in the same order.
\<close>

theorem img_to_patch_flat_merges_grid:
  assumes s: "shape x = [B, C, H, W]" and P: "0 < P" and fit: "within_int64 x P"
    and ret: "img_to_patch x (int P) f = Inr y"
  shows "\<exists>yg yf. img_to_patch x (int P) False = Inr yg \<and> img_to_patch x (int P) True = Inr yf
      \<and> shape yg = [B, (H div P) * (W div P), C, P, P]
      \<and> shape yf = [B, (H div P) * (W div P), C * P * P]
      \<and> yf = spec_merge_last_three yg
      \<and> data yf = data yg
      \<and> length (data yg) = B * C * H * W"
proof -
  define D where "D = gather (data x) B C (W div P) (H div P) P"
  define yg where "yg = \<lparr>shape = [B, (H div P) * (W div P), C, P, P], data = D\<rparr>"
  define yf where "yf = \<lparr>shape = [B, (H div P) * (W div P), C * P * P], data = D\<rparr>"
  have c: "W div P * (H div P) = H div P * (W div P)" by (rule mult.commute)
  have ok: "B * C * H * W = B * C * (W div P) * P * (H div P) * P"
    using img_to_patch_pos [OF s P fit, of f] ret by (simp split: if_splits)
  have g: "img_to_patch x (int P) False = Inr yg"
    using img_to_patch_pos [OF s P fit, of False] ok by (simp add: D_def yg_def c)
  have f: "img_to_patch x (int P) True = Inr yf"
    using img_to_patch_pos [OF s P fit, of True] ok by (simp add: D_def yf_def c mult.assoc)
  have sg: "shape yg = [B, (H div P) * (W div P), C, P, P]" by (simp add: yg_def)
  have sf: "shape yf = [B, (H div P) * (W div P), C * P * P]" by (simp add: yf_def)
  have m: "yf = spec_merge_last_three yg"
    by (simp add: yf_def yg_def spec_merge_last_three_def mult.assoc)
  have d: "data yf = data yg" by (simp add: yf_def yg_def)
  have "length D = B * (W div P * (H div P * (C * (P * P))))"
    unfolding D_def by (rule length_gather)
  also have "\<dots> = B * C * (W div P) * P * (H div P) * P"
    by (simp only: mult_ac)
  finally have "length D = B * C * H * W"
    using ok by (simp only:)
  then have len: "length (data yg) = B * C * H * W" by (simp add: yg_def)
  show ?thesis
    using g f sg sf m d len by blast
qed

theorem img_to_patch_flat_merges_grid_witness:
  "\<exists>yg yf. img_to_patch \<lparr>shape = [1, 2, 2, 2], data = [10, 11, 12, 13, 14, 15, 16, 17 :: int]\<rparr> 2 False
        = Inr yg
     \<and> img_to_patch \<lparr>shape = [1, 2, 2, 2], data = [10, 11, 12, 13, 14, 15, 16, 17 :: int]\<rparr> 2 True
        = Inr yf
     \<and> shape yg = [1, 1, 2, 2, 2] \<and> shape yf = [1, 1, 8]
     \<and> yf = spec_merge_last_three yg \<and> data yf = data yg \<and> length (data yg) = 8"
proof -
  have fit: "within_int64 \<lparr>shape = [1, 2, 2, 2], data = [10, 11, 12, 13, 14, 15, 16, 17 :: int]\<rparr> 2"
    by (simp add: within_int64_def int64_max_def)
  have ret: "img_to_patch \<lparr>shape = [1, 2, 2, 2], data = [10, 11, 12, 13, 14, 15, 16, 17 :: int]\<rparr>
      (int 2) True = Inr \<lparr>shape = [1, 1, 8], data = [10, 11, 12, 13, 14, 15, 16, 17]\<rparr>"
    using img_to_patch_pos [OF _ _ fit, of 1 2 2 2 True]
    by (simp add: gather_def upt_rec)
  show ?thesis
    using img_to_patch_flat_merges_grid [OF _ _ fit ret, of 1 2 2 2] by simp
qed

text \<open>
  Claim C9 as stated, for every input on which the function returns, does not hold: on an
  image of height and width zero with \<open>P = 2\<^sup>3\<^sup>2\<close> both calls return, the grid form has
  the axes \<open>(C, P, P) = (1, 2\<^sup>3\<^sup>2, 2\<^sup>3\<^sup>2)\<close>, and their product \<open>2\<^sup>6\<^sup>4\<close> wraps to zero: the
  feature form has shape \<open>(1, 0, 0)\<close>, not the merged shape.
\<close>

theorem img_to_patch_wrapped_feature_axis:
  "img_to_patch \<lparr>shape = [1, 1, 0, 0], data = ([] :: int list)\<rparr> (2 ^ 32) False
     = Inr \<lparr>shape = [1, 0, 1, 2 ^ 32, 2 ^ 32], data = []\<rparr>
   \<and> img_to_patch \<lparr>shape = [1, 1, 0, 0], data = ([] :: int list)\<rparr> (2 ^ 32) True
     = Inr \<lparr>shape = [1, 0, 0], data = []\<rparr>
   \<and> spec_merge_last_three \<lparr>shape = [1, 0, 1, 2 ^ 32, 2 ^ 32], data = ([] :: int list)\<rparr>
     = \<lparr>shape = [1, 0, 2 ^ 64], data = []\<rparr>"
  by (simp add: img_to_patch_def torch_div_trunc_def fits_int64_def int64_max_def reshape_def
      infer_size_def numel_def wrap64_def permute_def flatten_def Let_def
      spec_merge_last_three_def)

section \<open>Which input element each patch entry is\<close>

lemma unravel_lt:
  "n < prod_list s \<Longrightarrow> list_all2 (<) (unravel s n) s"
proof (induction s arbitrary: n)
  case Nil
  then show ?case by simp
next
  case (Cons d ds)
  then have lt: "n < d * prod_list ds" by simp
  then have pos: "0 < prod_list ds" by (cases "prod_list ds = 0") simp_all
  have "n div prod_list ds < d"
    using lt by (simp add: less_mult_imp_div_less)
  moreover have "list_all2 (<) (unravel ds (n mod prod_list ds)) ds"
    using pos by (intro Cons.IH) simp
  ultimately show ?case by simp
qed

lemma offset_unravel:
  "n < prod_list s \<Longrightarrow> offset (unravel s n) (strides s) = n"
proof (induction s arbitrary: n)
  case Nil
  then show ?case by simp
next
  case (Cons d ds)
  then have lt: "n < d * prod_list ds" by simp
  then have pos: "0 < prod_list ds" by (cases "prod_list ds = 0") simp_all
  have "offset (unravel ds (n mod prod_list ds)) (strides ds) = n mod prod_list ds"
    using pos by (intro Cons.IH) simp
  then show ?case by simp
qed

lemma offset_lt:
  "list_all2 (<) idx s \<Longrightarrow> offset idx (strides s) < prod_list s"
proof (induction idx s rule: list_all2_induct)
  case Nil
  then show ?case by simp
next
  case (Cons i "is" d ds)
  have "i * prod_list ds + offset is (strides ds) < d * prod_list ds"
    using Cons.hyps(1) Cons.IH by (rule radix_bound)
  then show ?case by simp
qed

lemma unravel_offset:
  "list_all2 (<) idx s \<Longrightarrow> unravel s (offset idx (strides s)) = idx"
proof (induction idx s rule: list_all2_induct)
  case Nil
  then show ?case by simp
next
  case (Cons i "is" d ds)
  have r: "offset is (strides ds) < prod_list ds"
    using Cons.hyps(2) by (rule offset_lt)
  then show ?case
    using Cons.IH by simp
qed

lemma gather_nth:
  "n < B * (Hq * (Wq * (C * (P * P)))) \<Longrightarrow>
   gather xs B C Hq Wq P ! n =
     xs ! offset (unravel [B, Hq, Wq, C, P, P] n)
            [C * (Hq * (P * (Wq * P))), P * (Wq * P), P, Hq * (P * (Wq * P)), Wq * P, 1]"
  unfolding gather_def by (subst nth_map) simp_all

lemma gather_at:
  assumes ix: "b < B" "hq < Hq" "wq < Wq" "c < C" "i < P" "j < P"
  shows "gather xs B C Hq Wq P ! ((((b * (Hq * Wq) + (hq * Wq + wq)) * C + c) * P + i) * P + j)
       = xs ! (b * (C * (Hq * (P * (Wq * P)))) + hq * (P * (Wq * P)) + wq * P
                + c * (Hq * (P * (Wq * P))) + i * (Wq * P) + j)
     \<and> (((b * (Hq * Wq) + (hq * Wq + wq)) * C + c) * P + i) * P + j
          < B * (Hq * (Wq * (C * (P * P))))"
proof -
  let ?s = "[B, Hq, Wq, C, P, P]"
  let ?idx = "[b, hq, wq, c, i, j]"
  define m where "m = offset ?idx (strides ?s)"
  have r: "list_all2 (<) ?idx ?s" using ix by simp
  have m_lt: "m < prod_list ?s" unfolding m_def using r by (rule offset_lt)
  have un: "unravel ?s m = ?idx" unfolding m_def using r by (rule unravel_offset)
  have m_eq: "m = (((b * (Hq * Wq) + (hq * Wq + wq)) * C + c) * P + i) * P + j"
    unfolding m_def by (simp add: algebra_simps)
  have lt: "m < B * (Hq * (Wq * (C * (P * P))))"
    using m_lt by simp
  have "gather xs B C Hq Wq P ! m =
      xs ! offset (unravel ?s m)
             [C * (Hq * (P * (Wq * P))), P * (Wq * P), P, Hq * (P * (Wq * P)), Wq * P, 1]"
    using lt by (rule gather_nth)
  also have "\<dots> = xs ! offset ?idx
             [C * (Hq * (P * (Wq * P))), P * (Wq * P), P, Hq * (P * (Wq * P)), Wq * P, 1]"
    by (simp only: un)
  also have "\<dots> = xs ! (b * (C * (Hq * (P * (Wq * P)))) + hq * (P * (Wq * P)) + wq * P
                + c * (Hq * (P * (Wq * P))) + i * (Wq * P) + j)"
    by (simp add: add.assoc)
  finally show ?thesis
    using lt unfolding m_eq by simp
qed

text \<open>
  What the code computes on every valid input, with \<open>Ht\<close> the length of the third axis
  (the image height of the docstring's \<open>[B, C, H, W]\<close>) and \<open>Wd\<close> that of the fourth:
  entry \<open>(c, i, j)\<close> of patch \<open>k\<close> is read from the image as if its rows had length
  \<open>Ht\<close>, because the source unpacks the shape as \<^verbatim>\<open>B, C, W, H\<close>.
\<close>

lemma img_to_patch_grid_entry:
  assumes s: "shape x = [B, C, Ht, Wd]" and P: "0 < P" and dv: "P dvd Ht" "P dvd Wd"
    and fit: "within_int64 x P"
    and ix: "b < B" "k < (Wd div P) * (Ht div P)" "c < C" "i < P" "j < P"
  shows "\<exists>y. img_to_patch x (int P) False = Inr y
      \<and> shape y = [B, (Ht div P) * (Wd div P), C, P, P]
      \<and> elem y [b, k, c, i, j]
          = Inr (data x ! ((b * C + c) * (Ht * Wd)
                            + ((k div (Ht div P)) * P + i) * Ht
                            + ((k mod (Ht div P)) * P + j)))"
proof -
  define Hq Wq where "Hq = Wd div P" and "Wq = Ht div P"
  define hq wq where "hq = k div Wq" and "wq = k mod Wq"
  define y where "y = \<lparr>shape = [B, Hq * Wq, C, P, P], data = gather (data x) B C Hq Wq P\<rparr>"
  have Ht: "Ht = Wq * P" and Wd: "Wd = Hq * P"
    using dv by (simp_all add: Hq_def Wq_def)
  have ok: "B * C * Ht * Wd = B * C * (Wd div P) * P * (Ht div P) * P"
    using count_eq_iff [of P B C Ht Wd] P dv by simp
  have y: "img_to_patch x (int P) False = Inr y"
    using img_to_patch_pos [OF s P fit, of False] ok by (simp add: y_def Hq_def Wq_def)
  have kl: "k < Hq * Wq" using ix(2) by (simp add: Hq_def Wq_def)
  then have Wq_pos: "0 < Wq" by (cases "Wq = 0") simp_all
  have wq: "wq < Wq" unfolding wq_def using Wq_pos by simp
  have hq: "hq < Hq" unfolding hq_def using kl
    by (simp add: less_mult_imp_div_less)
  have k: "k = hq * Wq + wq" by (simp add: hq_def wq_def)
  have g: "gather (data x) B C Hq Wq P ! ((((b * (Hq * Wq) + (hq * Wq + wq)) * C + c) * P + i) * P + j)
       = data x ! (b * (C * (Hq * (P * (Wq * P)))) + hq * (P * (Wq * P)) + wq * P
                + c * (Hq * (P * (Wq * P))) + i * (Wq * P) + j)"
    using gather_at [OF ix(1) hq wq ix(3) ix(4) ix(5), of "data x"] by simp
  have e1: "elem y [b, k, c, i, j] = Inr (data y ! ((((b * (Hq * Wq) + k) * C + c) * P + i) * P + j))"
    using elem_grid [of y B "Hq * Wq" C P b k c i j] ix kl by (simp add: y_def)
  have poly: "b * (C * (Hq * (P * (Wq * P)))) + hq * (P * (Wq * P)) + wq * P
                + c * (Hq * (P * (Wq * P))) + i * (Wq * P) + j
      = (b * C + c) * ((Wq * P) * (Hq * P)) + (hq * P + i) * (Wq * P) + (wq * P + j)"
    by (simp add: algebra_simps)
  have "elem y [b, k, c, i, j]
      = Inr (data x ! ((b * C + c) * ((Wq * P) * (Hq * P)) + (hq * P + i) * (Wq * P) + (wq * P + j)))"
    unfolding e1 by (simp only: y_def tensor.simps k g poly)
  then have "elem y [b, k, c, i, j]
      = Inr (data x ! ((b * C + c) * (Ht * Wd) + (hq * P + i) * Ht + (wq * P + j)))"
    by (simp only: Ht [symmetric] Wd [symmetric])
  then have "elem y [b, k, c, i, j]
      = Inr (data x ! ((b * C + c) * (Ht * Wd) + ((k div (Ht div P)) * P + i) * Ht
                            + ((k mod (Ht div P)) * P + j)))"
    by (simp only: hq_def wq_def Wq_def)
  moreover have "shape y = [B, (Ht div P) * (Wd div P), C, P, P]"
    by (simp add: y_def Hq_def Wq_def mult.commute)
  ultimately show ?thesis using y by blast
qed

text \<open>
  The feature form holds at position \<open>c * P * P + i * P + j\<close> of patch \<open>k\<close> what the grid
  form holds at \<open>(c, i, j)\<close> of patch \<open>k\<close>.
\<close>

lemma feature_entry_is_grid_entry:
  assumes s: "shape x = [B, C, H, W]" and P: "0 < P" and dv: "P dvd H" "P dvd W"
    and fit: "within_int64 x P"
    and ix: "b < B" "k < (H div P) * (W div P)" "c < C" "i < P" "j < P"
  shows "\<exists>yf yg. img_to_patch x (int P) True = Inr yf \<and> img_to_patch x (int P) False = Inr yg
      \<and> shape yf = [B, (H div P) * (W div P), C * P * P]
      \<and> elem yf [b, k, c * P * P + i * P + j] = elem yg [b, k, c, i, j]
      \<and> elem yg [b, k, c, i, j]
          = Inr (data yg ! ((((b * ((H div P) * (W div P)) + k) * C + c) * P + i) * P + j))"
proof -
  define N where "N = (H div P) * (W div P)"
  define D where "D = gather (data x) B C (W div P) (H div P) P"
  define yf where "yf = \<lparr>shape = [B, N, C * P * P], data = D\<rparr>"
  define yg where "yg = \<lparr>shape = [B, N, C, P, P], data = D\<rparr>"
  have ok: "B * C * H * W = B * C * (W div P) * P * (H div P) * P"
    using count_eq_iff [of P B C H W] P dv by simp
  have cm: "W div P * (H div P) = N"
    unfolding N_def by (rule mult.commute)
  have f: "img_to_patch x (int P) True = Inr yf"
    using img_to_patch_pos [OF s P fit, of True] ok by (simp add: yf_def D_def cm mult.assoc)
  have g: "img_to_patch x (int P) False = Inr yg"
    using img_to_patch_pos [OF s P fit, of False] ok by (simp add: yg_def D_def cm)
  have lenD: "length D = B * (N * (C * (P * P)))"
    unfolding D_def length_gather cm [symmetric] by (simp add: mult_ac)
  have "c * P + i < C * P" using ix(3) ix(4) by (rule radix_bound)
  then have "(c * P + i) * P + j < (C * P) * P" using ix(5) by (rule radix_bound)
  then have m: "c * P * P + i * P + j < C * P * P" by (simp add: algebra_simps)
  have kN: "k < N" using ix(2) by (simp add: N_def)
  have ef: "elem yf [b, k, c * P * P + i * P + j]
      = Inr (D ! ((b * N + k) * (C * P * P) + (c * P * P + i * P + j)))"
    using elem_feature [of yf B N "C * P * P" b k "c * P * P + i * P + j"] ix(1) kN m
    by (simp add: yf_def)
  have eg: "elem yg [b, k, c, i, j] = Inr (D ! ((((b * N + k) * C + c) * P + i) * P + j))"
    using elem_grid [of yg B N C P b k c i j] ix kN by (simp add: yg_def)
  have e: "(b * N + k) * (C * P * P) + (c * P * P + i * P + j)
      = (((b * N + k) * C + c) * P + i) * P + j"
    by (simp add: algebra_simps)
  have "elem yf [b, k, c * P * P + i * P + j] = elem yg [b, k, c, i, j]"
    by (simp only: ef eg e)
  moreover have "elem yg [b, k, c, i, j]
      = Inr (data yg ! ((((b * ((H div P) * (W div P)) + k) * C + c) * P + i) * P + j))"
    using eg by (simp add: yg_def N_def)
  moreover have "shape yf = [B, (H div P) * (W div P), C * P * P]"
    by (simp add: yf_def N_def)
  ultimately show ?thesis
    using f g by blast
qed

text \<open>
  Claim C3 at a non-square input. For the one-channel image of height 2 and width 4 with
  rows \<open>0 1 2 3\<close> and \<open>4 5 6 7\<close> and \<open>P = 2\<close>, the function returns the patches
  \<open>0 1 2 3\<close> and \<open>4 5 6 7\<close>: entry \<open>(1, 0)\<close> of patch \<open>0\<close> is \<open>2\<close>, whereas the
  top-left block of the image has \<open>4\<close> there (row 1, column 0).
\<close>

theorem img_to_patch_nonsquare_patch:
  "img_to_patch \<lparr>shape = [1, 1, 2, 4], data = [0, 1, 2, 3, 4, 5, 6, 7 :: int]\<rparr> 2 False
     = Inr \<lparr>shape = [1, 2, 1, 2, 2], data = [0, 1, 2, 3, 4, 5, 6, 7]\<rparr>
   \<and> elem \<lparr>shape = [1, 2, 1, 2, 2], data = [0, 1, 2, 3, 4, 5, 6, 7 :: int]\<rparr> [0, 0, 0, 1, 0] = Inr 2
   \<and> spec_patch_entry \<lparr>shape = [1, 1, 2, 4], data = [0, 1, 2, 3, 4, 5, 6, 7 :: int]\<rparr> 2 0 0 0 1 0
       = Inr 4"
proof -
  have "img_to_patch \<lparr>shape = [1, 1, 2, 4], data = [0, 1, 2, 3, 4, 5, 6, 7 :: int]\<rparr> (int 2) False
     = Inr \<lparr>shape = [1, 2, 1, 2, 2], data = [0, 1, 2, 3, 4, 5, 6, 7]\<rparr>"
    by (subst img_to_patch_pos [of _ 1 1 2 4])
      (simp_all add: gather_def upt_rec within_int64_def int64_max_def)
  then show ?thesis
    by (simp add: elem_def spec_patch_entry_def)
qed

text \<open>
  Claim C2 at the same input. Reassembling the two patches on the \<open>(H/P, W/P) = (1, 2)\<close>
  grid gives the rows \<open>0 1 4 5\<close> and \<open>2 3 6 7\<close>, not the input.
\<close>

theorem img_to_patch_nonsquare_roundtrip:
  "img_to_patch \<lparr>shape = [1, 1, 2, 4], data = [0, 1, 2, 3, 4, 5, 6, 7 :: int]\<rparr> 2 False
     = Inr \<lparr>shape = [1, 2, 1, 2, 2], data = [0, 1, 2, 3, 4, 5, 6, 7]\<rparr>
   \<and> spec_patches_to_img \<lparr>shape = [1, 2, 1, 2, 2], data = [0, 1, 2, 3, 4, 5, 6, 7 :: int]\<rparr> 2 4
     = Inr \<lparr>shape = [1, 1, 2, 4], data = [0, 1, 4, 5, 2, 3, 6, 7]\<rparr>"
proof -
  have "img_to_patch \<lparr>shape = [1, 1, 2, 4], data = [0, 1, 2, 3, 4, 5, 6, 7 :: int]\<rparr> (int 2) False
     = Inr \<lparr>shape = [1, 2, 1, 2, 2], data = [0, 1, 2, 3, 4, 5, 6, 7]\<rparr>"
    by (subst img_to_patch_pos [of _ 1 1 2 4])
      (simp_all add: gather_def upt_rec within_int64_def int64_max_def)
  moreover have "spec_patches_to_img
       \<lparr>shape = [1, 2, 1, 2, 2], data = [0, 1, 2, 3, 4, 5, 6, 7 :: int]\<rparr> 2 4
     = Inr \<lparr>shape = [1, 1, 2, 4], data = [0, 1, 4, 5, 2, 3, 6, 7]\<rparr>"
    by (simp add: spec_patches_to_img_def reshape_def infer_size_def numel_def wrap64_def
        fits_int64_def int64_max_def permute_def Let_def upt_rec)
  ultimately show ?thesis by simp
qed

text \<open>
  Claim C5 at the same input. With \<^verbatim>\<open>flatten_channels\<close> true the feature vector of
  patch \<open>0\<close> is \<open>0 1 2 3\<close>: feature position \<open>c * P * P + i * P + j = 2\<close> for channel
  \<open>0\<close>, row \<open>1\<close>, column \<open>0\<close> holds \<open>2\<close>, whereas the pixel at row 1, column 0 of the
  top-left block of the image is \<open>4\<close>.
\<close>

theorem img_to_patch_nonsquare_feature:
  "img_to_patch \<lparr>shape = [1, 1, 2, 4], data = [0, 1, 2, 3, 4, 5, 6, 7 :: int]\<rparr> 2 True
     = Inr \<lparr>shape = [1, 2, 4], data = [0, 1, 2, 3, 4, 5, 6, 7]\<rparr>
   \<and> elem \<lparr>shape = [1, 2, 4], data = [0, 1, 2, 3, 4, 5, 6, 7 :: int]\<rparr> [0, 0, 0 * 2 * 2 + 1 * 2 + 0]
       = Inr 2
   \<and> spec_patch_entry \<lparr>shape = [1, 1, 2, 4], data = [0, 1, 2, 3, 4, 5, 6, 7 :: int]\<rparr> 2 0 0 0 1 0
       = Inr 4"
proof -
  have "img_to_patch \<lparr>shape = [1, 1, 2, 4], data = [0, 1, 2, 3, 4, 5, 6, 7 :: int]\<rparr> (int 2) True
     = Inr \<lparr>shape = [1, 2, 4], data = [0, 1, 2, 3, 4, 5, 6, 7]\<rparr>"
    by (subst img_to_patch_pos [of _ 1 1 2 4])
      (simp_all add: gather_def upt_rec within_int64_def int64_max_def)
  then show ?thesis
    by (simp add: elem_def spec_patch_entry_def)
qed

subsection \<open>Square images\<close>

text \<open>
  When height and width are equal the swapped names make no difference: the patches are
  the blocks of the image in row-major order over the grid, the feature vectors are the
  blocks flattened channel by channel, row by row, and the specification's reassembly
  gives the input back.
\<close>

lemma img_to_patch_square_blocks:
  assumes s: "shape x = [B, C, S, S]" and P: "0 < P" and dv: "P dvd S"
    and fit: "within_int64 x P"
    and ix: "b < B" "k < (S div P) * (S div P)" "c < C" "i < P" "j < P"
  shows "\<exists>y v. img_to_patch x (int P) False = Inr y
      \<and> elem y [b, k, c, i, j] = Inr v
      \<and> spec_patch_entry x P b k c i j = Inr v"
proof -
  define r where "r = (k div (S div P)) * P + i"
  define q where "q = (k mod (S div P)) * P + j"
  obtain y where y: "img_to_patch x (int P) False = Inr y"
    and e: "elem y [b, k, c, i, j] = Inr (data x ! ((b * C + c) * (S * S) + r * S + q))"
    using img_to_patch_grid_entry [OF s P dv dv fit ix] unfolding r_def q_def by blast
  have S: "S = (S div P) * P" using dv by simp
  have Sq_pos: "0 < S div P" using ix(2) by (cases "S div P = 0") simp_all
  have "k div (S div P) < S div P"
    using ix(2) by (simp add: less_mult_imp_div_less)
  then have "r < (S div P) * P"
    unfolding r_def using ix(4) by (rule radix_bound)
  then have r: "r < S" using S by simp
  have "k mod (S div P) < S div P" using Sq_pos by simp
  then have "q < (S div P) * P"
    unfolding q_def using ix(5) by (rule radix_bound)
  then have q: "q < S" using S by simp
  have poly: "b * (C * (S * S)) + (c * (S * S) + (r * S + q)) = (b * C + c) * (S * S) + r * S + q"
    by (simp add: algebra_simps)
  have "elem x [b, c, r, q] = Inr (data x ! (b * (C * (S * S)) + (c * (S * S) + (r * S + q))))"
    using ix(1) ix(3) r q by (simp add: elem_def s)
  then have "elem x [b, c, r, q] = Inr (data x ! ((b * C + c) * (S * S) + r * S + q))"
    by (simp only: poly)
  then have "spec_patch_entry x P b k c i j = Inr (data x ! ((b * C + c) * (S * S) + r * S + q))"
    by (simp add: spec_patch_entry_def s r_def q_def)
  with y e show ?thesis by blast
qed

lemma img_to_patch_square_features:
  assumes s: "shape x = [B, C, S, S]" and P: "0 < P" and dv: "P dvd S"
    and fit: "within_int64 x P"
    and ix: "b < B" "k < (S div P) * (S div P)" "c < C" "i < P" "j < P"
  shows "\<exists>y v. img_to_patch x (int P) True = Inr y
      \<and> shape y = [B, (S div P) * (S div P), C * P * P]
      \<and> elem y [b, k, c * P * P + i * P + j] = Inr v
      \<and> spec_patch_entry x P b k c i j = Inr v"
proof -
  obtain yg v where yg: "img_to_patch x (int P) False = Inr yg"
    and eg: "elem yg [b, k, c, i, j] = Inr v"
    and sp: "spec_patch_entry x P b k c i j = Inr v"
    using img_to_patch_square_blocks [OF s P dv fit ix] by blast
  obtain yf yg' where yf: "img_to_patch x (int P) True = Inr yf"
    and yg': "img_to_patch x (int P) False = Inr yg'"
    and sh: "shape yf = [B, (S div P) * (S div P), C * P * P]"
    and ef: "elem yf [b, k, c * P * P + i * P + j] = elem yg' [b, k, c, i, j]"
    using feature_entry_is_grid_entry [OF s P dv dv fit ix] by blast
  have "yg' = yg" using yg yg' by simp
  then show ?thesis using yf sh ef eg sp by auto
qed

lemma regather:
  assumes len: "length xs = B * (C * (Hq * (P * (Wq * P))))"
  shows "map (\<lambda>n. gather xs B C Hq Wq P !
                 offset (unravel [B, C, Hq, P, Wq, P] n)
                   [Hq * (Wq * (C * (P * P))), P * P, Wq * (C * (P * P)), P, C * (P * P), 1])
           [0..<B * (C * (Hq * (P * (Wq * P))))] = xs"
proof (rule nth_equalityI)
  show "length (map (\<lambda>n. gather xs B C Hq Wq P !
                 offset (unravel [B, C, Hq, P, Wq, P] n)
                   [Hq * (Wq * (C * (P * P))), P * P, Wq * (C * (P * P)), P, C * (P * P), 1])
           [0..<B * (C * (Hq * (P * (Wq * P))))]) = length xs"
    by (simp add: len)
next
  fix n
  assume "n < length (map (\<lambda>n. gather xs B C Hq Wq P !
                 offset (unravel [B, C, Hq, P, Wq, P] n)
                   [Hq * (Wq * (C * (P * P))), P * P, Wq * (C * (P * P)), P, C * (P * P), 1])
           [0..<B * (C * (Hq * (P * (Wq * P))))])"
  then have n: "n < B * (C * (Hq * (P * (Wq * P))))" by simp
  let ?s = "[B, C, Hq, P, Wq, P]"
  have np: "n < prod_list ?s" using n by simp
  obtain b c hq i wq j where u: "unravel ?s n = [b, c, hq, i, wq, j]"
    by simp
  have "list_all2 (<) (unravel ?s n) ?s" using np by (rule unravel_lt)
  then have ix: "b < B" "c < C" "hq < Hq" "i < P" "wq < Wq" "j < P"
    unfolding u by simp_all
  have "offset (unravel ?s n) (strides ?s) = n" using np by (rule offset_unravel)
  then have bk: "b * (C * (Hq * (P * (Wq * P)))) + hq * (P * (Wq * P)) + wq * P
                + c * (Hq * (P * (Wq * P))) + i * (Wq * P) + j = n"
    unfolding u by (simp add: algebra_simps)
  have fwd: "offset [b, c, hq, i, wq, j]
        [Hq * (Wq * (C * (P * P))), P * P, Wq * (C * (P * P)), P, C * (P * P), 1]
      = (((b * (Hq * Wq) + (hq * Wq + wq)) * C + c) * P + i) * P + j"
    by (simp add: algebra_simps)
  have "gather xs B C Hq Wq P ! ((((b * (Hq * Wq) + (hq * Wq + wq)) * C + c) * P + i) * P + j)
      = xs ! n"
    using gather_at [OF ix(1) ix(3) ix(5) ix(2) ix(4) ix(6), of xs] bk by simp
  then have "gather xs B C Hq Wq P !
                 offset (unravel ?s n)
                   [Hq * (Wq * (C * (P * P))), P * P, Wq * (C * (P * P)), P, C * (P * P), 1]
      = xs ! n"
    by (simp only: u fwd)
  then show "map (\<lambda>n. gather xs B C Hq Wq P !
                 offset (unravel [B, C, Hq, P, Wq, P] n)
                   [Hq * (Wq * (C * (P * P))), P * P, Wq * (C * (P * P)), P, C * (P * P), 1])
           [0..<B * (C * (Hq * (P * (Wq * P))))] ! n = xs ! n"
    using n by (subst nth_map) simp_all
qed

lemma permute_back:
  "shape t = [B, Hq, Wq, C, P, P] \<Longrightarrow>
   permute t [0, 3, 1, 4, 2, 5] =
     Inr \<lparr>shape = [B, C, Hq, P, Wq, P],
          data = map (\<lambda>n. data t ! offset (unravel [B, C, Hq, P, Wq, P] n)
                    [Hq * (Wq * (C * (P * P))), P * P, Wq * (C * (P * P)), P, C * (P * P), 1])
                  [0..<B * (C * (Hq * (P * (Wq * P))))]\<rparr>"
  by (simp add: permute_def Let_def)

lemma img_to_patch_square_roundtrip:
  assumes s: "shape x = [B, C, S, S]" and wf: "wf_tensor x" and P: "0 < P" and dv: "P dvd S"
    and fit: "within_int64 x P"
  shows "\<exists>y. img_to_patch x (int P) False = Inr y \<and> spec_patches_to_img y S S = Inr x"
proof -
  define Sq where "Sq = S div P"
  define D where "D = gather (data x) B C Sq Sq P"
  define y where "y = \<lparr>shape = [B, Sq * Sq, C, P, P], data = D\<rparr>"
  have S: "S = Sq * P" using dv by (simp add: Sq_def)
  have ok: "B * C * S * S = B * C * (S div P) * P * (S div P) * P"
    using count_eq_iff [of P B C S S] P dv by simp
  have y: "img_to_patch x (int P) False = Inr y"
    using img_to_patch_pos [OF s P fit, of False] ok by (simp add: y_def D_def Sq_def)
  have len: "length (data x) = B * (C * (Sq * (P * (Sq * P))))"
    using wf by (simp add: wf_tensor_def s S)
  have B: "B \<le> int64_max" and n: "B * C * S * S \<le> int64_max"
    and m: "max C 1 * max S P * max S P \<le> int64_max"
    using fit by (simp_all add: within_int64_four [OF s])
  note b = patch_bounds [OF P n m]
  have P1: "max (Suc 0) P = P" using P by (simp add: max_def)
  have tot: "B * (Sq * (Sq * (C * (P * P)))) \<le> int64_max"
  proof -
    have "B * (Sq * (Sq * (C * (P * P)))) = B * C * (S div P) * P * (S div P) * P"
      unfolding Sq_def by (simp only: mult_ac)
    then show ?thesis using b(7) by (simp only:)
  qed
  have r1: "reshape y (map int [B, Sq, Sq, C, P, P])
      = Inr \<lparr>shape = [B, Sq, Sq, C, P, P], data = D\<rparr>"
  proof -
    have 1: "list_all (\<lambda>d. d \<le> int64_max) [B, Sq, Sq, C, P, P]"
      using B b by (simp add: Sq_def)
    have 2: "prod_list [B, Sq, Sq, C, P, P] \<le> int64_max"
      using tot by simp
    have e3: "max 1 Sq * (max 1 Sq * (max 1 C * (P * P)))
        = max 1 C * (max 1 (S div P) * (P * (max 1 (S div P) * P)))"
      unfolding Sq_def by (simp only: mult_ac)
    have k: "max 1 Sq * (max 1 Sq * (max 1 C * (P * P))) \<le> int64_max"
      using b(8) by (simp only: e3)
    have 3: "prod_list (map (max 1) (tl [B, Sq, Sq, C, P, P])) \<le> int64_max"
      using k by (simp add: P1)
    show ?thesis
      unfolding reshape_nat [OF 1 2 3] by (simp add: numel_def y_def mult.assoc)
  qed
  have p: "permute \<lparr>shape = [B, Sq, Sq, C, P, P], data = D\<rparr> [0, 3, 1, 4, 2, 5]
      = Inr \<lparr>shape = [B, C, Sq, P, Sq, P], data = data x\<rparr>"
    using permute_back [of "\<lparr>shape = [B, Sq, Sq, C, P, P], data = D\<rparr>" B Sq Sq C P]
      regather [OF len]
    by (simp add: D_def)
  have r2: "reshape \<lparr>shape = [B, C, Sq, P, Sq, P], data = data x\<rparr> (map int [B, C, S, S])
      = Inr \<lparr>shape = [B, C, S, S], data = data x\<rparr>"
  proof -
    have 1: "list_all (\<lambda>d. d \<le> int64_max) [B, C, S, S]"
      using B b by simp
    have 2: "prod_list [B, C, S, S] \<le> int64_max"
      using n by (simp add: mult.assoc)
    have 3: "prod_list (map (max 1) (tl [B, C, S, S])) \<le> int64_max"
      using wf by (simp add: wf_tensor_def s)
    show ?thesis
      unfolding reshape_nat [OF 1 2 3] by (simp add: numel_def S mult.assoc)
  qed
  have x: "\<lparr>shape = [B, C, S, S], data = data x\<rparr> = x"
    using s by simp
  have "spec_patches_to_img y S S = Inr x"
    using r1 p r2 x
    by (simp add: spec_patches_to_img_def y_def Sq_def del: One_nat_def)
  with y show ?thesis by blast
qed

section \<open>Effects of a call\<close>

text \<open>
  The call on objects does what the function on values does: it raises the same error, or
  returns a new object holding the value, after the intermediate objects it made.
\<close>

lemma img_to_patch_call_four:
  assumes s: "shape (h ! x) = [B, C, W, H]"
  shows "img_to_patch_call h x P f =
     (case torch_div_trunc (int H) P of
        Inl e \<Rightarrow> Inl e
      | Inr Hq \<Rightarrow>
     (case torch_div_trunc (int W) P of
        Inl e \<Rightarrow> Inl e
      | Inr Wq \<Rightarrow>
     (case reshape (h ! x) [int B, int C, Hq, P, Wq, P] of
        Inl e \<Rightarrow> Inl e
      | Inr t1 \<Rightarrow>
     (case permute t1 [0, 2, 4, 1, 3, 5] of
        Inl e \<Rightarrow> Inl e
      | Inr t2 \<Rightarrow>
     (case flatten t2 1 2 of
        Inl e \<Rightarrow> Inl e
      | Inr t3 \<Rightarrow>
     if f then
       (case flatten t3 2 4 of
          Inl e \<Rightarrow> Inl e
        | Inr t4 \<Rightarrow> Inr (length h + 3, h @ [t1, t2, t3, t4]))
     else Inr (length h + 2, h @ [t1, t2, t3]))))))"
  by (simp add: img_to_patch_call_def s method_call_def nth_append split: sum.splits)

lemma img_to_patch_call_axes:
  "length (shape (h ! x)) \<noteq> 4 \<Longrightarrow> img_to_patch_call h x P f = Inl ValueError"
  by (auto simp: img_to_patch_call_def split: list.splits)

lemma img_to_patch_call_returns:
  assumes "img_to_patch (h ! x) P f = Inr y"
  shows "\<exists>ts. img_to_patch_call h x P f = Inr (length h + length ts, h @ ts @ [y])"
proof (cases "length (shape (h ! x)) = 4")
  case False
  then show ?thesis using assms by (simp add: img_to_patch_axes)
next
  case True
  then obtain B C W H where s: "shape (h ! x) = [B, C, W, H]"
    using shape_four by blast
  obtain Hq Wq t1 t2 t3 where
    st: "torch_div_trunc (int H) P = Inr Hq" "torch_div_trunc (int W) P = Inr Wq"
        "reshape (h ! x) [int B, int C, Hq, P, Wq, P] = Inr t1"
        "permute t1 [0, 2, 4, 1, 3, 5] = Inr t2" "flatten t2 1 2 = Inr t3"
    and y: "if f then flatten t3 2 4 = Inr y else t3 = y"
    using assms by (auto simp: img_to_patch_def s split: sum.splits if_splits)
  show ?thesis
  proof (cases f)
    case True
    then have "img_to_patch_call h x P f = Inr (length h + length [t1, t2, t3], h @ [t1, t2, t3] @ [y])"
      using st y by (simp add: img_to_patch_call_four [OF s] del: One_nat_def)
    then show ?thesis by blast
  next
    case False
    then have "img_to_patch_call h x P f = Inr (length h + length [t1, t2], h @ [t1, t2] @ [y])"
      using st y by (simp add: img_to_patch_call_four [OF s] del: One_nat_def)
    then show ?thesis by blast
  qed
qed

lemma img_to_patch_call_raises:
  assumes "img_to_patch (h ! x) P f = Inl e"
  shows "img_to_patch_call h x P f = Inl e"
proof (cases "length (shape (h ! x)) = 4")
  case False
  then show ?thesis using assms by (simp add: img_to_patch_axes img_to_patch_call_axes)
next
  case True
  then obtain B C W H where s: "shape (h ! x) = [B, C, W, H]"
    using shape_four by blast
  show ?thesis
    using assms unfolding img_to_patch_call_four [OF s]
    by (auto simp: img_to_patch_def s split: sum.splits if_splits)
qed

text \<open>
  Claim C7. When a call returns, every tensor object that existed before the call is
  unchanged, the argument \<open>x\<close> among them (so every element of \<open>x\<close> has its value from
  before the call); the call has only added objects, and the result is one of the added
  objects, holding the value the function computes from \<open>x\<close>.
\<close>

theorem img_to_patch_call_frame:
  assumes x: "x < length h" and c: "img_to_patch_call h x P f = Inr (r, h')"
  shows "take (length h) h' = h \<and> h' ! x = h ! x \<and> length h \<le> r \<and> r < length h'
       \<and> img_to_patch (h ! x) P f = Inr (h' ! r)"
proof (cases "img_to_patch (h ! x) P f")
  case (Inl e)
  then have "img_to_patch_call h x P f = Inl e" by (rule img_to_patch_call_raises)
  with c show ?thesis by simp
next
  case (Inr y)
  then obtain ts where "img_to_patch_call h x P f = Inr (length h + length ts, h @ ts @ [y])"
    using img_to_patch_call_returns by blast
  with c have r: "r = length h + length ts" and h': "h' = h @ ts @ [y]" by simp_all
  have "h' ! r = y" unfolding r h' by (simp add: nth_append)
  moreover have "h' ! x = h ! x" unfolding h' using x by (simp add: nth_append)
  ultimately show ?thesis using Inr by (simp add: r h')
qed

theorem img_to_patch_call_frame_witness:
  "take 1 [\<lparr>shape = [1, 1, 2, 2], data = [5, 6, 7, 8 :: int]\<rparr>,
           \<lparr>shape = [1, 1, 1, 2, 1, 2], data = [5, 6, 7, 8]\<rparr>,
           \<lparr>shape = [1, 1, 1, 1, 2, 2], data = [5, 6, 7, 8]\<rparr>,
           \<lparr>shape = [1, 1, 1, 2, 2], data = [5, 6, 7, 8]\<rparr>,
           \<lparr>shape = [1, 1, 4], data = [5, 6, 7, 8]\<rparr>]
     = [\<lparr>shape = [1, 1, 2, 2], data = [5, 6, 7, 8 :: int]\<rparr>]
   \<and> img_to_patch \<lparr>shape = [1, 1, 2, 2], data = [5, 6, 7, 8 :: int]\<rparr> 2 True
       = Inr \<lparr>shape = [1, 1, 4], data = [5, 6, 7, 8]\<rparr>"
proof -
  have c: "img_to_patch_call [\<lparr>shape = [1, 1, 2, 2], data = [5, 6, 7, 8 :: int]\<rparr>] 0 2 True
      = Inr (4, [\<lparr>shape = [1, 1, 2, 2], data = [5, 6, 7, 8 :: int]\<rparr>,
           \<lparr>shape = [1, 1, 1, 2, 1, 2], data = [5, 6, 7, 8]\<rparr>,
           \<lparr>shape = [1, 1, 1, 1, 2, 2], data = [5, 6, 7, 8]\<rparr>,
           \<lparr>shape = [1, 1, 1, 2, 2], data = [5, 6, 7, 8]\<rparr>,
           \<lparr>shape = [1, 1, 4], data = [5, 6, 7, 8]\<rparr>])"
    by (simp add: img_to_patch_call_def method_call_def torch_div_trunc_def fits_int64_def
        int64_max_def reshape_def infer_size_def numel_def wrap64_def permute_def flatten_def
        Let_def upt_rec)
  have x: "0 < length [\<lparr>shape = [1, 1, 2, 2], data = [5, 6, 7, 8 :: int]\<rparr>]" by simp
  show ?thesis
    using img_to_patch_call_frame [OF x c] by simp
qed

text \<open>
  Claim C8. Two calls whose argument tensors are equal (in whatever states, at whatever
  references) and whose patch size and flag are equal end alike: both raise the same
  error, or both return tensors that are equal.
\<close>

theorem img_to_patch_deterministic:
  assumes "x1 < length h1" and "x2 < length h2" and eq: "h1 ! x1 = h2 ! x2"
  shows "case img_to_patch_call h1 x1 P f of
           Inl e \<Rightarrow> img_to_patch_call h2 x2 P f = Inl e
         | Inr (r1, h1') \<Rightarrow>
             (\<exists>r2 h2'. img_to_patch_call h2 x2 P f = Inr (r2, h2') \<and> h2' ! r2 = h1' ! r1)"
proof (cases "img_to_patch (h1 ! x1) P f")
  case (Inl e)
  then have "img_to_patch_call h1 x1 P f = Inl e" "img_to_patch_call h2 x2 P f = Inl e"
    using eq by (simp_all add: img_to_patch_call_raises)
  then show ?thesis by simp
next
  case (Inr y)
  obtain ts1 where 1: "img_to_patch_call h1 x1 P f = Inr (length h1 + length ts1, h1 @ ts1 @ [y])"
    using img_to_patch_call_returns [of h1 x1 P f y] Inr by blast
  obtain ts2 where 2: "img_to_patch_call h2 x2 P f = Inr (length h2 + length ts2, h2 @ ts2 @ [y])"
    using img_to_patch_call_returns [of h2 x2 P f y] Inr eq by auto
  have "(h2 @ ts2 @ [y]) ! (length h2 + length ts2) = (h1 @ ts1 @ [y]) ! (length h1 + length ts1)"
    by (simp add: nth_append)
  then show ?thesis using 1 2 by simp
qed

theorem img_to_patch_deterministic_witness:
  "\<exists>r2 h2'. img_to_patch_call
       [\<lparr>shape = [0], data = []\<rparr>, \<lparr>shape = [1, 1, 2, 2], data = [5, 6, 7, 8 :: int]\<rparr>] 1 2 True
         = Inr (r2, h2')
     \<and> h2' ! r2 = \<lparr>shape = [1, 1, 4], data = [5, 6, 7, 8]\<rparr>"
proof -
  have c: "img_to_patch_call [\<lparr>shape = [1, 1, 2, 2], data = [5, 6, 7, 8 :: int]\<rparr>] 0 2 True
      = Inr (4, [\<lparr>shape = [1, 1, 2, 2], data = [5, 6, 7, 8 :: int]\<rparr>,
           \<lparr>shape = [1, 1, 1, 2, 1, 2], data = [5, 6, 7, 8]\<rparr>,
           \<lparr>shape = [1, 1, 1, 1, 2, 2], data = [5, 6, 7, 8]\<rparr>,
           \<lparr>shape = [1, 1, 1, 2, 2], data = [5, 6, 7, 8]\<rparr>,
           \<lparr>shape = [1, 1, 4], data = [5, 6, 7, 8]\<rparr>])"
    by (simp add: img_to_patch_call_def method_call_def torch_div_trunc_def fits_int64_def
        int64_max_def reshape_def infer_size_def numel_def wrap64_def permute_def flatten_def
        Let_def upt_rec)
  show ?thesis
    using img_to_patch_deterministic
      [of 0 "[\<lparr>shape = [1, 1, 2, 2], data = [5, 6, 7, 8 :: int]\<rparr>]"
          1 "[\<lparr>shape = [0], data = []\<rparr>, \<lparr>shape = [1, 1, 2, 2], data = [5, 6, 7, 8 :: int]\<rparr>]"
          2 True]
    unfolding c by simp
qed

section \<open>The default flag and the transformer's input\<close>

text \<open>
  Claim C10. A call without the flag is a call with \<open>True\<close>. So for a batch of shape
  \<open>(B, C, H, W)\<close> and a positive patch size \<open>P\<close> dividing \<open>H\<close> and \<open>W\<close>, with the sizes
  of the call within 64 bits, a transformer for \<open>C\<close> channels and patch size \<open>P\<close> can be
  built, and its forward pass gets the feature form \<open>(B, (H/P) * (W/P), C * P * P)\<close>,
  whose last axis has the input width \<open>num_channels * patch_size\<^sup>2\<close> of the linear input
  layer.
\<close>

theorem forward_receives_features:
  assumes s: "shape x = [B, C, H, W]" and P: "0 < P" and dv: "P dvd H" "P dvd W"
    and fit: "within_int64 x P"
  shows "img_to_patch_args x (int P) None = img_to_patch x (int P) True
     \<and> (\<exists>self y. VisionTransformer (int C) (int P) = Inr self
            \<and> patch_size self = int P
            \<and> forward_input self x = Inr y
            \<and> img_to_patch x (int P) True = Inr y
            \<and> shape y = [B, (H div P) * (W div P), C * P * P]
            \<and> int (last (shape y)) = in_features self)"
proof -
  have n: "B * C * H * W \<le> int64_max" and m: "max C 1 * max H P * max W P \<le> int64_max"
    using fit by (simp_all add: within_int64_four [OF s])
  note b = patch_bounds [OF P n m]
  have ok: "B * C * H * W = B * C * (W div P) * P * (H div P) * P"
    using count_eq_iff [of P B C H W] P dv by simp
  define y where "y = \<lparr>shape = [B, (H div P) * (W div P), C * P * P],
      data = gather (data x) B C (W div P) (H div P) P\<rparr>"
  define self where "self = \<lparr>patch_size = int P, in_features = int C * int P ^ 2\<rparr>"
  have c: "W div P * (H div P) = H div P * (W div P)" by (rule mult.commute)
  have y: "img_to_patch x (int P) True = Inr y"
    using img_to_patch_pos [OF s P fit, of True] ok by (simp add: y_def c mult.assoc)
  have a: "img_to_patch_args x (int P) None = img_to_patch x (int P) True"
    by (simp add: img_to_patch_args_def)
  have w: "int (C * P * P) = int C * int P ^ 2"
    by (simp add: power2_eq_square)
  have "int (C * (P * P)) \<le> int int64_max"
    using b(10) by (simp only: of_nat_le_iff)
  then have "int C * int P ^ 2 \<le> int int64_max"
    by (simp add: power2_eq_square)
  then have v: "VisionTransformer (int C) (int P) = Inr self"
    by (simp add: VisionTransformer_def self_def Let_def)
  have f: "forward_input self x = Inr y"
    using w by (simp add: forward_input_def self_def a y) (simp add: y_def)
  have l: "int (last (shape y)) = in_features self"
    using w by (simp add: y_def self_def)
  have sh: "shape y = [B, (H div P) * (W div P), C * P * P]" by (simp add: y_def)
  have ps: "patch_size self = int P" by (simp add: self_def)
  show ?thesis
    using a v ps f y sh l by blast
qed

theorem forward_receives_features_witness:
  "\<exists>self y. VisionTransformer 3 4 = Inr self
      \<and> forward_input self \<lparr>shape = [2, 3, 32, 32], data = replicate 6144 (0::int)\<rparr> = Inr y
      \<and> shape y = [2, 64, 48]
      \<and> int (last (shape y)) = in_features self"
  using forward_receives_features
    [of "\<lparr>shape = [2, 3, 32, 32], data = replicate 6144 (0::int)\<rparr>" 2 3 32 32 4]
  by (auto simp: within_int64_def int64_max_def)

text \<open>
  Claim C10 as stated does not hold for every batch and positive patch size dividing its
  axes: on an image of height and width zero with \<open>P = 2\<^sup>3\<^sup>2\<close> the call without the flag
  returns shape \<open>(1, 0, 0)\<close>, whose last axis is not \<open>C * P * P = 2\<^sup>6\<^sup>4\<close>, and no input
  layer of that width can be built.
\<close>

theorem default_call_wrapped_width:
  "img_to_patch_args \<lparr>shape = [1, 1, 0, 0], data = ([] :: int list)\<rparr> (2 ^ 32) None
     = Inr \<lparr>shape = [1, 0, 0], data = []\<rparr>
   \<and> [1, 0, 0] \<noteq> [1, (0 div 2 ^ 32) * (0 div 2 ^ 32), 1 * 2 ^ 32 * 2 ^ 32 :: nat]
   \<and> VisionTransformer 1 (2 ^ 32) = Inl RuntimeError"
  by (simp add: img_to_patch_args_def img_to_patch_def torch_div_trunc_def fits_int64_def
      int64_max_def reshape_def infer_size_def numel_def wrap64_def permute_def flatten_def
      Let_def VisionTransformer_def)

end
